theory Spec2Isabelle
  imports Main "HOL-Library.Multiset"
begin

section \<open>Paths (POSIX flavour of \<open>os.path\<close>)\<close>

text \<open>
  The scanner of \<open>vorta/utils.py\<close> works on path strings with \<open>os.path.sep\<close>.
  The model fixes the POSIX separator \<open>/\<close>. A Python \<open>str\<close> is modelled as a
  \<open>string\<close>; one \<open>char\<close> stands for one character of the Python string.
\<close>

definition sep :: char where
  "sep = CHR ''/''"

text \<open>\<open>s.lstrip(os.path.sep)\<close> and \<open>s.rstrip(os.path.sep)\<close>.\<close>

definition lstrip_sep :: "string \<Rightarrow> string" where
  "lstrip_sep s = dropWhile (\<lambda>c. c = sep) s"

definition rstrip_sep :: "string \<Rightarrow> string" where
  "rstrip_sep s = rev (dropWhile (\<lambda>c. c = sep) (rev s))"

text \<open>\<open>s.endswith(os.path.sep)\<close> and \<open>s.startswith(os.path.sep)\<close>.\<close>

definition endswith_sep :: "string \<Rightarrow> bool" where
  "endswith_sep s = (s \<noteq> [] \<and> last s = sep)"

definition startswith_sep :: "string \<Rightarrow> bool" where
  "startswith_sep s = (s \<noteq> [] \<and> hd s = sep)"

text \<open>\<open>path.split('/')\<close>: the result is never empty, \<open>''''.split('/') = ['''']\<close>.\<close>

fun split_sep :: "string \<Rightarrow> string list" where
  "split_sep [] = [[]]"
| "split_sep (c # cs) =
     (if c = sep then [] # split_sep cs
      else (case split_sep cs of
              [] \<Rightarrow> [[c]]
            | h # t \<Rightarrow> (c # h) # t))"

text \<open>\<open>'/'.join(comps)\<close>.\<close>

fun join_sep :: "string list \<Rightarrow> string" where
  "join_sep [] = []"
| "join_sep [c] = c"
| "join_sep (c # cs) = c @ [sep] @ join_sep cs"

text \<open>
  The component loop of \<open>posixpath.normpath\<close>; \<open>ini\<close> is \<open>initial_slashes\<close>
  (\<open>0\<close>, \<open>1\<close> or \<open>2\<close>), \<open>new_comps\<close> the list built so far.
\<close>

fun norm_comps :: "nat \<Rightarrow> string list \<Rightarrow> string list \<Rightarrow> string list" where
  "norm_comps ini [] new_comps = new_comps"
| "norm_comps ini (part # comps) new_comps =
     (if part = [] \<or> part = ''.'' then norm_comps ini comps new_comps
      else if part \<noteq> ''..'' \<or> (ini = 0 \<and> new_comps = [])
                \<or> (new_comps \<noteq> [] \<and> last new_comps = ''..'')
        then norm_comps ini comps (new_comps @ [part])
      else if new_comps \<noteq> [] then norm_comps ini comps (butlast new_comps)
      else norm_comps ini comps new_comps)"

definition initial_slashes :: "string \<Rightarrow> nat" where
  "initial_slashes path =
     (if startswith_sep path
      then (if take 2 path = [sep, sep] \<and> take 3 path \<noteq> [sep, sep, sep] then 2 else 1)
      else 0)"

definition normpath :: "string \<Rightarrow> string" where
  "normpath path =
     (if path = [] then ''.''
      else (let ini = initial_slashes path;
                comps = norm_comps ini (split_sep path) [];
                p = replicate ini sep @ join_sep comps
            in if p = [] then ''.'' else p))"

text \<open>\<open>os.path.join(a, b)\<close> for two components.\<close>

definition path_join :: "string \<Rightarrow> string \<Rightarrow> string" where
  "path_join a b =
     (if startswith_sep b then b
      else if a = [] \<or> endswith_sep a then a @ b
      else a @ [sep] @ b)"

section \<open>Shell patterns (\<open>fnmatch.translate\<close> and \<open>re\<close>)\<close>

text \<open>
  \<open>prepare_pattern\<close> compiles \<open>fnmatch.translate(pattern)\<close>. The regular expression
  that \<open>translate\<close> builds is a sequence of pieces, each of which is a star (\<open>.*\<close>
  under \<open>(?s:...)\<close>), a dot, an escaped literal character, a bracket set or the
  piece \<open>(?!)\<close> that never matches; the whole is anchored by \<open>\Z\<close>. The
  compiled pattern is modelled as the list of these pieces.
\<close>

datatype cls_item = Single char | Range char char

datatype glob_tok =
    Star
  | AnyChar
  | Lit char
  | Cls bool "cls_item list"
  | Never

text \<open>The characters of the bracket expression, with the hyphens that join chunks kept
  apart from escaped (literal) characters.\<close>

datatype cchar = C char | Dash

text \<open>
  The index \<open>j\<close> of the closing bracket, relative to the position after the opening
  bracket; \<open>None\<close> when the loop runs to the end of the pattern (\<open>j >= n\<close>).
\<close>

definition bracket_end :: "string \<Rightarrow> nat option" where
  "bracket_end s =
     (let j1 = (if s \<noteq> [] \<and> hd s = CHR ''!'' then 1 else 0);
          j2 = (if j1 < length s \<and> s ! j1 = CHR '']'' then j1 + 1 else j1);
          j = j2 + length (takeWhile (\<lambda>c. c \<noteq> CHR '']'') (drop j2 s))
      in if j \<ge> length s then None else Some j)"

text \<open>
  The \<open>while True\<close> loop that cuts \<open>stuff\<close> at hyphens. \<open>skip\<close> counts the
  characters before position \<open>k\<close>, where the search \<open>pat.find('-', k, j)\<close> starts:
  after a hyphen at \<open>k\<close> the search resumes at \<open>k + 3\<close>, two characters into the
  next chunk. The last element of the result is \<open>pat[i:j]\<close>, the final chunk.
\<close>

fun chunk_scan :: "nat \<Rightarrow> string \<Rightarrow> string \<Rightarrow> string list" where
  "chunk_scan skip cur [] = [cur]"
| "chunk_scan skip cur (c # cs) =
     (if skip = 0 \<and> c = CHR ''-'' then cur # chunk_scan 2 [] cs
      else chunk_scan (skip - 1) (cur @ [c]) cs)"

text \<open>\<open>if chunk: chunks.append(chunk) else: chunks[-1] += '-'\<close>.\<close>

definition close_chunks :: "string list \<Rightarrow> string list" where
  "close_chunks cs =
     (if cs \<noteq> [] \<and> last cs = [] \<and> butlast cs \<noteq> []
      then butlast (butlast cs) @ [last (butlast cs) @ ''-'']
      else cs)"

text \<open>
  The loop \<open>for k in range(len(chunks)-1, 0, -1)\<close> that removes empty ranges. It runs
  from the right, so the chunk at \<open>k\<close> is already merged with its successors
  when it is compared with the chunk at \<open>k - 1\<close>. Characters compare by code point.
\<close>

fun remove_empty_ranges :: "string list \<Rightarrow> string list" where
  "remove_empty_ranges [] = []"
| "remove_empty_ranges [c] = [c]"
| "remove_empty_ranges (c # c' # cs) =
     (case remove_empty_ranges (c' # cs) of
        [] \<Rightarrow> [c]
      | d # ds \<Rightarrow>
          if c \<noteq> [] \<and> d \<noteq> [] \<and> (of_char (last c) :: nat) > of_char (hd d)
          then (butlast c @ tl d) # ds
          else c # d # ds)"

text \<open>\<open>'-'.join(...)\<close> of the escaped chunks.\<close>

fun join_chunks :: "string list \<Rightarrow> cchar list" where
  "join_chunks [] = []"
| "join_chunks [c] = map C c"
| "join_chunks (c # cs) = map C c @ [Dash] @ join_chunks cs"

definition bracket_stuff :: "string \<Rightarrow> cchar list" where
  "bracket_stuff stuff =
     (if CHR ''-'' \<notin> set stuff then map C stuff
      else join_chunks (remove_empty_ranges (close_chunks
             (chunk_scan (if hd stuff = CHR ''!'' then 2 else 1) [] stuff))))"

text \<open>How \<open>re\<close> reads the inside of a bracket set: an unescaped hyphen between two
  characters forms a range.\<close>

fun cls_items :: "cchar list \<Rightarrow> cls_item list" where
  "cls_items [] = []"
| "cls_items (C a # Dash # C b # rest) = Range a b # cls_items rest"
| "cls_items (C a # rest) = Single a # cls_items rest"
| "cls_items (Dash # rest) = Single (CHR ''-'') # cls_items rest"

definition bracket_tok :: "string \<Rightarrow> glob_tok" where
  "bracket_tok stuff =
     (let st = bracket_stuff stuff
      in if st = [] then Never
         else if st = [C (CHR ''!'')] then AnyChar
         else if hd st = C (CHR ''!'') then Cls True (cls_items (tl st))
         else Cls False (cls_items st))"

text \<open>
  The main loop of \<open>fnmatch.translate\<close>: \<open>res\<close> is the list of pieces so far, the
  string argument is \<open>pat[i:]\<close>.
\<close>

function translate_loop :: "glob_tok list \<Rightarrow> string \<Rightarrow> glob_tok list" where
  "translate_loop res [] = res"
| "translate_loop res (c # cs) =
     (if c = CHR ''*'' then
        (if res = [] \<or> last res \<noteq> Star then translate_loop (res @ [Star]) cs
         else translate_loop res cs)
      else if c = CHR ''?'' then translate_loop (res @ [AnyChar]) cs
      else if c = CHR ''['' then
        (case bracket_end cs of
           None \<Rightarrow> translate_loop (res @ [Lit (CHR ''['')]) cs
         | Some j \<Rightarrow> translate_loop (res @ [bracket_tok (take j cs)]) (drop (Suc j) cs))
      else translate_loop (res @ [Lit c]) cs)"
  by pat_completeness auto
termination
  by (relation "measure (\<lambda>(res, s). length s)") auto

definition translate :: "string \<Rightarrow> glob_tok list" where
  "translate pat = translate_loop [] pat"

text \<open>Whether one piece matches one character.\<close>

fun item_matches :: "cls_item \<Rightarrow> char \<Rightarrow> bool" where
  "item_matches (Single a) c = (c = a)"
| "item_matches (Range a b) c =
     ((of_char a :: nat) \<le> of_char c \<and> (of_char c :: nat) \<le> of_char b)"

fun tok_matches :: "glob_tok \<Rightarrow> char \<Rightarrow> bool" where
  "tok_matches Star c = True"
| "tok_matches AnyChar c = True"
| "tok_matches (Lit a) c = (c = a)"
| "tok_matches (Cls neg items) c = (neg \<noteq> list_ex (\<lambda>i. item_matches i c) items)"
| "tok_matches Never c = False"

text \<open>
  \<open>pattern.match(s)\<close> for a pattern built by \<open>translate\<close>: the match starts at the
  beginning of \<open>s\<close> and \<open>\Z\<close> makes it end at the end of \<open>s\<close>.
\<close>

fun re_match :: "glob_tok list \<Rightarrow> string \<Rightarrow> bool" where
  "re_match [] s = (s = [])"
| "re_match (Star # ts) [] = re_match ts []"
| "re_match (Star # ts) (c # cs) = (re_match ts (c # cs) \<or> re_match (Star # ts) cs)"
| "re_match (t # ts) [] = False"
| "re_match (t # ts) (c # cs) = (tok_matches t c \<and> re_match ts cs)"

section \<open>Exclude patterns\<close>

text \<open>
  \<^verbatim>\<open>
  def prepare_pattern(pattern):
      if pattern.endswith(os.path.sep):
          pattern = os.path.normpath(pattern).rstrip(os.path.sep)
          pattern += os.path.sep + '*' + os.path.sep
      else:
          pattern = os.path.normpath(pattern) + os.path.sep + '*'
      pattern = pattern.lstrip(os.path.sep)
      return re.compile(fnmatch.translate(pattern))
  \<close>
\<close>

definition prepare_pattern :: "string \<Rightarrow> glob_tok list" where
  "prepare_pattern pattern =
     (let pattern1 =
            (if endswith_sep pattern
             then rstrip_sep (normpath pattern) @ [sep] @ ''*'' @ [sep]
             else normpath pattern @ [sep] @ ''*'')
      in translate (lstrip_sep pattern1))"

text \<open>
  \<^verbatim>\<open>
  def match(pattern, path):
      path = path.lstrip(os.path.sep) + os.path.sep
      return pattern.match(path) is not None
  \<close>
\<close>

definition match :: "glob_tok list \<Rightarrow> string \<Rightarrow> bool" where
  "match pattern path = re_match pattern (lstrip_sep path @ [sep])"


text \<open>
  The characters that \<open>fnmatch.translate\<close> does not take literally, and the patterns
  without any of them.
\<close>

definition magic :: "char \<Rightarrow> bool" where
  "magic c \<longleftrightarrow> c = CHR ''*'' \<or> c = CHR ''?'' \<or> c = CHR ''[''"

definition literal :: "string \<Rightarrow> bool" where
  "literal s \<longleftrightarrow> (\<forall>c \<in> set s. \<not> magic c)"

section \<open>The file system seen by the scan\<close>

text \<open>
  Exceptions are values. \<open>OSError\<close> stands for every class of \<open>OSError\<close> other than
  the two subclasses that the scan catches.
\<close>

datatype py_error =
    FileNotFoundError
  | PermissionError
  | OSError
  | OverflowError
  | IndexError
  | KeyError

text \<open>The fields of \<open>os.stat_result\<close> that the scan reads, and the device number.\<close>

record stat_result =
  st_ino :: nat
  st_dev :: nat
  st_size :: nat

text \<open>
  A directory is the list of its entries in the order in which \<open>os.scandir\<close> returns
  them. \<open>File r\<close> is any entry that is neither a directory nor a symbolic link, with
  the outcome \<open>r\<close> of \<open>os.stat\<close> on its path. \<open>Symlink t\<close> is a symbolic link
  and \<open>t\<close> the entry it resolves to (\<open>None\<close> for a dangling link). Two names are
  hard links of one physical file when their \<open>stat\<close> results have the same
  \<open>st_dev\<close> and \<open>st_ino\<close>.
\<close>

datatype entry =
    File "py_error + stat_result"
  | Symlink "entry option"
  | Dir "(string \<times> entry) list"

text \<open>\<open>os.path.islink\<close>, and \<open>DirEntry.is_dir()\<close>, which follows symbolic links.\<close>

fun islink :: "entry \<Rightarrow> bool" where
  "islink (Symlink t) = True"
| "islink e = False"

fun is_dir :: "entry \<Rightarrow> bool" where
  "is_dir (Dir es) = True"
| "is_dir (Symlink (Some t)) = is_dir t"
| "is_dir (Symlink None) = False"
| "is_dir (File r) = False"

text \<open>
  The third component \<open>file_names\<close> of what \<open>os.walk\<close> yields for a directory: the
  entries for which \<open>is_dir()\<close> is false (each name is kept with its entry).
\<close>

definition nondirs :: "(string \<times> entry) list \<Rightarrow> (string \<times> entry) list" where
  "nondirs ents = filter (\<lambda>(name, e). \<not> is_dir e) ents"

section \<open>The scan\<close>

text \<open>The local variables \<open>data_size_filtered\<close>, \<open>seen\<close> and \<open>seen_filtered\<close>.\<close>

record scan_state =
  data_size_filtered :: nat
  seen :: "nat set"
  seen_filtered :: "nat set"

definition init_state :: scan_state where
  "init_state = \<lparr>data_size_filtered = 0, seen = {}, seen_filtered = {}\<rparr>"

text \<open>
  \<^verbatim>\<open>
  is_excluded = False
  for pattern in exclude_patterns:
      if match(pattern, path):
          is_excluded = True
          break
  \<close>
\<close>

fun is_excluded :: "glob_tok list list \<Rightarrow> string \<Rightarrow> bool" where
  "is_excluded [] path = False"
| "is_excluded (pattern # patterns) path =
     (if match pattern path then True else is_excluded patterns path)"

text \<open>The \<open>try\<close> block of the file loop, for a \<open>stat\<close> that succeeded.\<close>

definition count_file :: "bool \<Rightarrow> stat_result \<Rightarrow> scan_state \<Rightarrow> scan_state" where
  "count_file excluded stat st =
     (if st_ino stat \<notin> seen st then
        (let st1 = st\<lparr>seen := insert (st_ino stat) (seen st)\<rparr>
         in if \<not> excluded
            then st1\<lparr>data_size_filtered := data_size_filtered st1 + st_size stat,
                     seen_filtered := insert (st_ino stat) (seen_filtered st1)\<rparr>
            else st1)
      else st)"

text \<open>
  The body of \<open>for file_name in file_names\<close> after \<open>file_path\<close> is computed. A
  symbolic link is skipped first; then the path is tested against the patterns, then
  \<open>os.stat\<close> is called. The clause \<open>except (FileNotFoundError, PermissionError):
  continue\<close> leaves the state as it was; any other exception leaves the scan. A
  directory is never in \<open>file_names\<close>.
\<close>

fun process_file ::
  "glob_tok list list \<Rightarrow> string \<Rightarrow> entry \<Rightarrow> scan_state \<Rightarrow> py_error + scan_state"
where
  "process_file exclude_patterns file_path (Symlink t) st = Inr st"
| "process_file exclude_patterns file_path (File r) st =
     (let excluded = is_excluded exclude_patterns file_path
      in case r of
           Inr stat \<Rightarrow> Inr (count_file excluded stat st)
         | Inl err \<Rightarrow>
             if err = FileNotFoundError \<or> err = PermissionError then Inr st else Inl err)"
| "process_file exclude_patterns file_path (Dir es) st = Inr st"

fun files_loop ::
  "glob_tok list list \<Rightarrow> string \<Rightarrow> (string \<times> entry) list \<Rightarrow> scan_state \<Rightarrow> py_error + scan_state"
where
  "files_loop exclude_patterns dir_path [] st = Inr st"
| "files_loop exclude_patterns dir_path ((file_name, e) # fs) st =
     (case process_file exclude_patterns (path_join dir_path file_name) e st of
        Inl err \<Rightarrow> Inl err
      | Inr st' \<Rightarrow> files_loop exclude_patterns dir_path fs st')"

text \<open>
  \<open>for dir_path, subdirectories, file_names in os.walk(dir_path, topdown=True)\<close>
  with the loop body. \<open>walk\<close> is one directory: the body runs on it, and unless the
  body cleared \<open>subdirectories\<close>, \<open>os.walk\<close> goes on through the subdirectories in
  order (\<open>walk_dirs\<close>), depth first. \<open>os.walk\<close> does not enter a symbolic link to
  a directory (\<open>followlinks\<close> is false).
\<close>

fun walk ::
  "glob_tok list list \<Rightarrow> string \<Rightarrow> (string \<times> entry) list \<Rightarrow> scan_state \<Rightarrow> py_error + scan_state"
and walk_dirs ::
  "glob_tok list list \<Rightarrow> string \<Rightarrow> (string \<times> entry) list \<Rightarrow> scan_state \<Rightarrow> py_error + scan_state"
where
  "walk exclude_patterns dir_path ents st =
     (if is_excluded exclude_patterns dir_path then Inr st
      else (case files_loop exclude_patterns dir_path (nondirs ents) st of
              Inl err \<Rightarrow> Inl err
            | Inr st' \<Rightarrow> walk_dirs exclude_patterns dir_path ents st'))"
| "walk_dirs exclude_patterns parent [] st = Inr st"
| "walk_dirs exclude_patterns parent ((name, Dir sub) # rest) st =
     (case walk exclude_patterns (path_join parent name) sub st of
        Inl err \<Rightarrow> Inl err
      | Inr st' \<Rightarrow> walk_dirs exclude_patterns parent rest st')"
| "walk_dirs exclude_patterns parent ((name, File r) # rest) st =
     walk_dirs exclude_patterns parent rest st"
| "walk_dirs exclude_patterns parent ((name, Symlink t) # rest) st =
     walk_dirs exclude_patterns parent rest st"

declare walk.simps [simp del]

text \<open>The returned pair: \<open>files_count_filtered = len(seen_filtered)\<close>.\<close>

definition scan_result :: "py_error + scan_state \<Rightarrow> py_error + nat \<times> nat" where
  "scan_result r =
     (case r of
        Inl err \<Rightarrow> Inl err
      | Inr st \<Rightarrow> Inr (data_size_filtered st, card (seen_filtered st)))"

text \<open>
  \<open>get_directory_size(dir_path, exclude_patterns)\<close>, where \<open>root\<close> is the listing of
  the directory at \<open>dir_path\<close>. The result is \<open>(data_size_filtered,
  files_count_filtered)\<close>, or the exception that left the scan.
\<close>

definition get_directory_size ::
  "(string \<times> entry) list \<Rightarrow> string \<Rightarrow> string list \<Rightarrow> py_error + nat \<times> nat"
where
  "get_directory_size root dir_path exclude_patterns =
     scan_result (walk (map prepare_pattern exclude_patterns) dir_path root init_state)"

subsection \<open>The files that the file loop meets\<close>

text \<open>
  The paths and entries on which the body of the file loop runs, in order: the files
  of every directory that is reached and not pruned. The scan is the file loop over
  this list (lemma \<open>walk_scan_files\<close>).
\<close>

fun visited :: "glob_tok list list \<Rightarrow> string \<Rightarrow> (string \<times> entry) list \<Rightarrow> (string \<times> entry) list"
and visited_dirs ::
  "glob_tok list list \<Rightarrow> string \<Rightarrow> (string \<times> entry) list \<Rightarrow> (string \<times> entry) list"
where
  "visited exclude_patterns dir_path ents =
     (if is_excluded exclude_patterns dir_path then []
      else map (\<lambda>(file_name, e). (path_join dir_path file_name, e)) (nondirs ents)
           @ visited_dirs exclude_patterns dir_path ents)"
| "visited_dirs exclude_patterns parent [] = []"
| "visited_dirs exclude_patterns parent ((name, Dir sub) # rest) =
     visited exclude_patterns (path_join parent name) sub
     @ visited_dirs exclude_patterns parent rest"
| "visited_dirs exclude_patterns parent ((name, File r) # rest) =
     visited_dirs exclude_patterns parent rest"
| "visited_dirs exclude_patterns parent ((name, Symlink t) # rest) =
     visited_dirs exclude_patterns parent rest"

declare visited.simps [simp del]

fun scan_files ::
  "glob_tok list list \<Rightarrow> (string \<times> entry) list \<Rightarrow> scan_state \<Rightarrow> py_error + scan_state"
where
  "scan_files exclude_patterns [] st = Inr st"
| "scan_files exclude_patterns ((file_path, e) # fs) st =
     (case process_file exclude_patterns file_path e st of
        Inl err \<Rightarrow> Inl err
      | Inr st' \<Rightarrow> scan_files exclude_patterns fs st')"

text \<open>The \<open>stat\<close> result of an entry that the scan counts or could count.\<close>

fun stat_of :: "entry \<Rightarrow> stat_result option" where
  "stat_of (File (Inr s)) = Some s"
| "stat_of e = None"

text \<open>Whether an entry is a name of the file with inode number \<open>i\<close>.\<close>

definition has_ino :: "nat \<Rightarrow> entry \<Rightarrow> bool" where
  "has_ino i e = (case stat_of e of None \<Rightarrow> False | Some s \<Rightarrow> st_ino s = i)"

text \<open>A \<open>stat\<close> failure of a class that the scan does not catch.\<close>

fun fatal :: "entry \<Rightarrow> bool" where
  "fatal (File (Inl err)) = (err \<noteq> FileNotFoundError \<and> err \<noteq> PermissionError)"
| "fatal e = False"

text \<open>A tree without its symbolic links.\<close>

fun strip_symlinks :: "(string \<times> entry) list \<Rightarrow> (string \<times> entry) list" where
  "strip_symlinks [] = []"
| "strip_symlinks ((name, Symlink t) # rest) = strip_symlinks rest"
| "strip_symlinks ((name, Dir sub) # rest) = (name, Dir (strip_symlinks sub)) # strip_symlinks rest"
| "strip_symlinks ((name, File r) # rest) = (name, File r) # strip_symlinks rest"

text \<open>The state after an inode number has been added to \<open>seen\<close>.\<close>

definition mark_seen :: "nat \<Rightarrow> scan_state \<Rightarrow> scan_state" where
  "mark_seen i st = st\<lparr>seen := insert i (seen st)\<rparr>"

text \<open>The \<open>stat\<close> results of the files in a list of paths and entries.\<close>

definition files_of :: "(string \<times> entry) list \<Rightarrow> stat_result set" where
  "files_of xs = {s. \<exists>p. (p, File (Inr s)) \<in> set xs}"

text \<open>
  The invariant of the scan: the files counted so far are a finite set \<open>S\<close> of
  \<open>stat\<close> results with pairwise different inode numbers, whose inode numbers are
  \<open>seen_filtered\<close> and whose sizes add up to \<open>data_size_filtered\<close>.
\<close>

definition counted_by :: "stat_result set \<Rightarrow> scan_state \<Rightarrow> bool" where
  "counted_by S st \<longleftrightarrow>
     finite S \<and> inj_on st_ino S \<and> st_ino ` S = seen_filtered st
     \<and> seen_filtered st \<subseteq> seen st \<and> data_size_filtered st = sum st_size S"

subsection \<open>Example trees\<close>

definition reg :: "nat \<Rightarrow> nat \<Rightarrow> entry" where
  "reg i n = File (Inr \<lparr>st_ino = i, st_dev = 1, st_size = n\<rparr>)"

text \<open>\<open>root/{a.txt:100, b/c.txt:200, b/d.txt:50}\<close>\<close>

definition tree_with_b :: "(string \<times> entry) list" where
  "tree_with_b =
     [(''a.txt'', reg 1 100),
      (''b'', Dir [(''c.txt'', reg 2 200), (''d.txt'', reg 3 50)])]"

text \<open>\<open>root/{a.txt:100, link_to_a.txt (hardlink of a.txt)}\<close>\<close>

definition tree_hardlink :: "(string \<times> entry) list" where
  "tree_hardlink = [(''a.txt'', reg 1 100), (''link_to_a.txt'', reg 1 100)]"

text \<open>\<open>root/{a.txt:100, gone, z.txt:7}\<close>, where \<open>os.stat\<close> on \<open>gone\<close> raises \<open>err\<close>.\<close>

definition tree_fail :: "py_error \<Rightarrow> (string \<times> entry) list" where
  "tree_fail err = [(''a.txt'', reg 1 100), (''gone'', File (Inl err)), (''z.txt'', reg 2 7)]"

text \<open>
  \<open>root/{a:100, m/b:50}\<close>, where \<open>m\<close> is the mount point of a second device and the
  two files have the same inode number on their devices.
\<close>

definition tree_two_devices :: "(string \<times> entry) list" where
  "tree_two_devices =
     [(''a'', File (Inr \<lparr>st_ino = 7, st_dev = 1, st_size = 100\<rparr>)),
      (''m'', Dir [(''b'', File (Inr \<lparr>st_ino = 7, st_dev = 2, st_size = 50\<rparr>))])]"


text \<open>
  \<open>root/{a.txt:100, q.txt:5, z.txt (hard link of a.txt)}\<close>
\<close>

definition tree_excluded_first :: "(string \<times> entry) list" where
  "tree_excluded_first =
     [(''a.txt'', reg 1 100), (''q.txt'', reg 2 5), (''z.txt'', reg 1 100)]"


section \<open>Numbers of Python\<close>

text \<open>
  \<open>pretty_bytes\<close> starts with an \<open>int\<close> and divides it into a \<open>float\<close>. An
  \<open>int\<close> is unbounded. A \<open>float\<close> is an IEEE 754 binary64 number: \<open>Flt s m e\<close> is
  \<open>m * 2 ^ e\<close>, negative when \<open>s\<close> holds, and \<open>Infty s\<close> is an infinity. The
  operations below return a float in its one normal form: \<open>m = 0\<close> and \<open>e = 0\<close>, or
  \<open>2 ^ 52 \<le> m < 2 ^ 53\<close> and \<open>- 1074 \<le> e \<le> 971\<close>, or \<open>m < 2 ^ 52\<close> and
  \<open>e = - 1074\<close> (a subnormal number). There is no NaN: none of the operations below
  produces one.
\<close>

datatype pyfloat = Flt bool nat int | Infty bool

datatype number = IntV int | FloatV pyfloat

text \<open>\<open>n.bit_length()\<close>\<close>

fun bit_length :: "nat \<Rightarrow> nat" where
  "bit_length n = (if n = 0 then 0 else Suc (bit_length (n div 2)))"

declare bit_length.simps [simp del]

text \<open>The integer nearest to \<open>a / b\<close>, the even one of two that are equally near.\<close>

definition round_half_even :: "nat \<Rightarrow> nat \<Rightarrow> nat" where
  "round_half_even a b =
     (let q = a div b; r = a mod b
      in if 2 * r < b then q
         else if 2 * r > b then q + 1
         else if even q then q else q + 1)"

text \<open>
  The binary64 number nearest to \<open>a / b\<close> (round to nearest, ties to even), as
  mantissa and exponent, for \<open>b > 0\<close>; \<open>None\<close> when it is beyond the largest finite
  number. With \<open>k\<close> the difference of the bit lengths, \<open>a / b\<close> is between
  \<open>2 ^ (k - 1)\<close> and \<open>2 ^ (k + 1)\<close>; \<open>ex\<close> is the exponent of its leading bit and
  \<open>u\<close> that of the last bit of the mantissa.
\<close>

definition nearest_double :: "nat \<Rightarrow> nat \<Rightarrow> (nat \<times> int) option" where
  "nearest_double a b =
     (if a = 0 then Some (0, 0)
      else
        (let k = int (bit_length a) - int (bit_length b);
             ex = (if a * 2 ^ nat (- k) \<ge> b * 2 ^ nat k then k else k - 1);
             u = max (ex - 52) (- 1074);
             m = round_half_even (a * 2 ^ nat (- u)) (b * 2 ^ nat u)
         in if m = 0 then Some (0, 0)
            else if m = 2 ^ 53 then (if u + 1 > 971 then None else Some (2 ^ 52, u + 1))
            else (if u > 971 then None else Some (m, u))))"

text \<open>
  \<open>a / b\<close> for an \<open>int\<close> \<open>a\<close> and a positive \<open>int\<close> \<open>b\<close>: the correctly rounded
  quotient, or \<open>OverflowError\<close> (integer division result too large for a float).
\<close>

definition int_truediv :: "int \<Rightarrow> nat \<Rightarrow> py_error + pyfloat" where
  "int_truediv a b =
     (case nearest_double (nat \<bar>a\<bar>) b of
        None \<Rightarrow> Inl OverflowError
      | Some (m, e) \<Rightarrow> Inr (Flt (a < 0) m e))"

text \<open>
  \<open>x / b\<close> for a \<open>float\<close> \<open>x\<close> and a positive \<open>int\<close> \<open>b\<close> that is converted to
  a \<open>float\<close> without rounding (1000 and 1024 are): the IEEE quotient, which is an
  infinity where the rounded quotient is too large.
\<close>

fun float_truediv :: "pyfloat \<Rightarrow> nat \<Rightarrow> pyfloat" where
  "float_truediv (Infty s) b = Infty s"
| "float_truediv (Flt s m e) b =
     (case nearest_double (m * 2 ^ nat e) (b * 2 ^ nat (- e)) of
        None \<Rightarrow> Infty s
      | Some (m', e') \<Rightarrow> Flt s m' e')"

text \<open>\<open>size / power\<close>\<close>

fun truediv :: "number \<Rightarrow> nat \<Rightarrow> py_error + pyfloat" where
  "truediv (IntV i) b = int_truediv i b"
| "truediv (FloatV x) b = Inr (float_truediv x b)"

text \<open>
  \<open>round(i, ndigits)\<close> for an \<open>int\<close>: \<open>i\<close> itself when \<open>ndigits\<close> is not
  negative, and otherwise the multiple of \<open>10 ** -ndigits\<close> nearest to \<open>i\<close>, the even
  multiple of two that are equally near.
\<close>

definition int_round :: "int \<Rightarrow> int \<Rightarrow> int" where
  "int_round i ndigits =
     (if ndigits \<ge> 0 then i
      else
        (let p = 10 ^ nat (- ndigits); q = i div p; r = i mod p
         in if 2 * r < p then q * p
            else if 2 * r > p then (q + 1) * p
            else if even q then q * p else (q + 1) * p))"

text \<open>
  \<open>round(x, ndigits)\<close> for a \<open>float\<close>. An infinity rounds to itself. Beyond 323
  digits the result is \<open>x\<close>, below \<open>- 308\<close> digits it is a zero with the sign of
  \<open>x\<close>. Otherwise \<open>x\<close> is rounded to a decimal string with \<open>ndigits\<close> digits after
  the point (correctly, ties to even: \<open>r\<close> is the integer of its digits), and the
  string is read back as a \<open>float\<close>; when that is too large for a \<open>float\<close>,
  \<open>OverflowError\<close> is raised (rounded value too large to represent).
\<close>

fun float_round :: "pyfloat \<Rightarrow> int \<Rightarrow> py_error + pyfloat" where
  "float_round (Infty s) ndigits = Inr (Infty s)"
| "float_round (Flt s m e) ndigits =
     (if ndigits > 323 then Inr (Flt s m e)
      else if ndigits < - 308 then Inr (Flt s 0 0)
      else
        (let r = round_half_even (m * 2 ^ nat e * 10 ^ nat ndigits)
                   (2 ^ nat (- e) * 10 ^ nat (- ndigits))
         in case nearest_double (r * 10 ^ nat (- ndigits)) (10 ^ nat ndigits) of
              None \<Rightarrow> Inl OverflowError
            | Some (m', e') \<Rightarrow> Inr (Flt s m' e')))"

text \<open>\<open>round(size, precision)\<close>\<close>

fun py_round :: "number \<Rightarrow> int \<Rightarrow> py_error + number" where
  "py_round (IntV i) ndigits = Inr (IntV (int_round i ndigits))"
| "py_round (FloatV x) ndigits =
     (case float_round x ndigits of
        Inl err \<Rightarrow> Inl err
      | Inr y \<Rightarrow> Inr (FloatV y))"

text \<open>\<open>abs(v) >= power\<close> for a positive \<open>int\<close> \<open>power\<close>; the comparison is exact.\<close>

fun abs_ge :: "number \<Rightarrow> nat \<Rightarrow> bool" where
  "abs_ge (IntV i) b = (nat \<bar>i\<bar> \<ge> b)"
| "abs_ge (FloatV (Infty s)) b = True"
| "abs_ge (FloatV (Flt s m e)) b = (m * 2 ^ nat e \<ge> b * 2 ^ nat (- e))"

section \<open>Numbers as strings\<close>

text \<open>The decimal digits of a natural number, and \<open>str(i)\<close> for an \<open>int\<close>.\<close>

fun digits10 :: "nat \<Rightarrow> string" where
  "digits10 n =
     (if n < 10 then [''0123456789'' ! n]
      else digits10 (n div 10) @ [''0123456789'' ! (n mod 10)])"

declare digits10.simps [simp del]

definition int_str :: "int \<Rightarrow> string" where
  "int_str i = (if i < 0 then ''-'' else '''') @ digits10 (nat \<bar>i\<bar>)"

text \<open>
  For \<open>0 < a < b\<close>, the least \<open>j\<close> with \<open>a * 10 ^ j \<ge> b\<close>: one more than the
  number of zeros between the point and the first digit of \<open>a / b\<close>.
\<close>

function lead_zeros :: "nat \<Rightarrow> nat \<Rightarrow> nat" where
  "lead_zeros a b = (if 0 < a \<and> a < b then Suc (lead_zeros (10 * a) b) else 0)"
  by pat_completeness auto
termination
  by (relation "measure (\<lambda>(a, b). b - a)") auto

declare lead_zeros.simps [simp del]

text \<open>
  The position \<open>d\<close> of the decimal point of the positive number \<open>m * 2 ^ e\<close>: the one
  with \<open>10 ^ (d - 1) \<le> m * 2 ^ e < 10 ^ d\<close>.
\<close>

definition dec_point :: "nat \<Rightarrow> int \<Rightarrow> int" where
  "dec_point m e =
     (let a = m * 2 ^ nat e; b = 2 ^ nat (- e)
      in if a \<ge> b then int (length (digits10 (a div b)))
         else 1 - int (lead_zeros a b))"

text \<open>Whether the decimal number \<open>d * 10 ^ j\<close> is read as the float \<open>m * 2 ^ e\<close>.\<close>

definition reads_as :: "nat \<Rightarrow> int \<Rightarrow> nat \<Rightarrow> int \<Rightarrow> bool" where
  "reads_as d j m e \<longleftrightarrow> nearest_double (d * 10 ^ nat j) (10 ^ nat (- j)) = Some (m, e)"

text \<open>
  The digits of \<open>repr\<close>: the shortest decimal number that is read as the float, and
  of two of the same length the one nearer to the float. With \<open>k\<close> digits the
  candidates are the two numbers \<open>lo * 10 ^ j\<close> and \<open>hi * 10 ^ j\<close> around the float,
  where \<open>j = decpt - k\<close>; seventeen digits always suffice. The result is the number
  of the digits and \<open>j\<close>.
\<close>

function shortest :: "nat \<Rightarrow> int \<Rightarrow> int \<Rightarrow> nat \<Rightarrow> nat \<times> int" where
  "shortest m e decpt k =
     (let j = decpt - int k;
          num = m * 2 ^ nat e * 10 ^ nat (- j);
          den = 2 ^ nat (- e) * 10 ^ nat j;
          lo = num div den;
          hi = lo + 1
      in if k \<ge> 17 then (round_half_even num den, j)
         else if reads_as lo j m e
           then (if reads_as hi j m e \<and> 2 * (num mod den) > den then (hi, j) else (lo, j))
         else if reads_as hi j m e then (hi, j)
         else shortest m e decpt (k + 1))"
  by pat_completeness auto
termination
  by (relation "measure (\<lambda>(m, e, decpt, k). 17 - k)") auto

declare shortest.simps [simp del]

text \<open>\<open>s.rstrip('0')\<close>\<close>

definition rstrip_zeros :: "string \<Rightarrow> string" where
  "rstrip_zeros s = rev (dropWhile (\<lambda>c. c = CHR ''0'') (rev s))"

text \<open>The exponent of the scientific notation: a sign and at least two digits.\<close>

definition exp_str :: "int \<Rightarrow> string" where
  "exp_str x =
     (if x < 0 then ''-'' else ''+'') @ (if \<bar>x\<bar> < 10 then ''0'' else '''')
     @ digits10 (nat \<bar>x\<bar>)"

text \<open>
  \<open>repr\<close> of a positive float from its digits \<open>ds\<close> (without zeros at the end) and
  the position \<open>d\<close> of the point before them: the value is \<open>0.ds * 10 ^ d\<close>. The
  scientific notation is used below \<open>1e-4\<close> and from \<open>1e16\<close> on; otherwise a number
  without a fraction gets \<open>.0\<close>.
\<close>

definition repr_digits :: "string \<Rightarrow> int \<Rightarrow> string" where
  "repr_digits ds d =
     (if d \<le> - 4 \<or> d > 16
        then [hd ds] @ (if tl ds = [] then '''' else ''.'' @ tl ds) @ ''e'' @ exp_str (d - 1)
      else if d \<le> 0 then ''0.'' @ replicate (nat (- d)) (CHR ''0'') @ ds
      else if nat d < length ds then take (nat d) ds @ ''.'' @ drop (nat d) ds
      else ds @ replicate (nat d - length ds) (CHR ''0'') @ ''.0'')"

text \<open>\<open>repr(x)\<close>, which is also \<open>str(x)\<close> and \<open>format(x, '')\<close>.\<close>

fun float_repr :: "pyfloat \<Rightarrow> string" where
  "float_repr (Infty s) = (if s then ''-'' else '''') @ ''inf''"
| "float_repr (Flt s m e) =
     (if s then ''-'' else '''') @
     (if m = 0 then ''0.0''
      else
        (let (d, j) = shortest m e (dec_point m e) 1;
             ds = digits10 d
         in repr_digits (rstrip_zeros ds) (j + int (length ds))))"

text \<open>The replacement field \<open>{round(size, precision)}\<close> of the f-string.\<close>

fun number_str :: "number \<Rightarrow> string" where
  "number_str (IntV i) = int_str i"
| "number_str (FloatV x) = float_repr x"

section \<open>\<open>pretty_bytes\<close>\<close>

text \<open>
  The argument \<open>size\<close> is any Python value. \<open>isinstance(size, int)\<close> holds of an
  \<open>int\<close> and of a \<open>bool\<close>, which is an \<open>int\<close> with the value 0 or 1.
\<close>

datatype py_value =
    PyInt int
  | PyBool bool
  | PyFloat pyfloat
  | PyStr string
  | PyNone

fun int_value :: "py_value \<Rightarrow> int option" where
  "int_value (PyInt i) = Some i"
| "int_value (PyBool b) = Some (if b then 1 else 0)"
| "int_value v = None"

text \<open>
  \<^verbatim>\<open>
  power, units = (
      (10**3, ['', 'K', 'M', 'G', 'T', 'P', 'E', 'Z', 'Y'])
      if metric
      else (2**10, ['', 'Ki', 'Mi', 'Gi', 'Ti', 'Pi', 'Ei', 'Zi', 'Yi'])
  )
  \<close>
\<close>

definition power_units :: "bool \<Rightarrow> nat \<times> string list" where
  "power_units metric =
     (if metric
      then (10 ^ 3, ['''', ''K'', ''M'', ''G'', ''T'', ''P'', ''E'', ''Z'', ''Y''])
      else (2 ^ 10, ['''', ''Ki'', ''Mi'', ''Gi'', ''Ti'', ''Pi'', ''Ei'', ''Zi'', ''Yi'']))"

text \<open>
  \<^verbatim>\<open>
  n = 0
  while abs(round(size, precision)) >= power and n + 1 < len(units):
      size /= power
      n += 1
  \<close>
  The loop from the state \<open>(sz, n)\<close>; it returns the last state, or the exception that
  \<open>round\<close> or the division raised. \<open>len_units\<close> is \<open>len(units)\<close>.
\<close>

function scale_loop ::
  "nat \<Rightarrow> nat \<Rightarrow> int \<Rightarrow> number \<Rightarrow> nat \<Rightarrow> py_error + number \<times> nat"
where
  "scale_loop pow len_units precision sz n =
     (case py_round sz precision of
        Inl err \<Rightarrow> Inl err
      | Inr r \<Rightarrow>
          if abs_ge r pow \<and> n + 1 < len_units
          then (case truediv sz pow of
                  Inl err \<Rightarrow> Inl err
                | Inr sz' \<Rightarrow> scale_loop pow len_units precision (FloatV sz') (n + 1))
          else Inr (sz, n))"
  by pat_completeness auto
termination
  by (relation "measure (\<lambda>(pow, len_units, precision, sz, n). len_units - n)") auto

declare scale_loop.simps [simp del]

text \<open>
  \<^verbatim>\<open>
  try:
      unit = units[n]
      return f'{prefix}{round(size, precision)} {unit}B'
  except KeyError as e:
      logger.error(e)
      return "NaN"
  \<close>
  An index beyond the list raises \<open>IndexError\<close>. The handler catches \<open>KeyError\<close>
  only; the log is not modelled.
\<close>

definition format_size ::
  "string \<Rightarrow> string list \<Rightarrow> int \<Rightarrow> number \<Rightarrow> nat \<Rightarrow> py_error + string"
where
  "format_size prefix units precision sz n =
     (if n < length units
      then (case py_round sz precision of
              Inl err \<Rightarrow> Inl err
            | Inr r \<Rightarrow> Inr (prefix @ number_str r @ '' '' @ units ! n @ ''B''))
      else Inl IndexError)"

definition except_KeyError :: "py_error + string \<Rightarrow> py_error + string" where
  "except_KeyError r = (if r = Inl KeyError then Inr ''NaN'' else r)"

text \<open>
  \<open>pretty_bytes(size, metric, sign, precision)\<close>; the defaults are \<open>metric=True\<close>,
  \<open>sign=False\<close> and \<open>precision=1\<close>. The result is the returned string or the
  exception that leaves the function.
\<close>

definition pretty_bytes :: "py_value \<Rightarrow> bool \<Rightarrow> bool \<Rightarrow> int \<Rightarrow> py_error + string" where
  "pretty_bytes size_arg metric sign precision =
     (case int_value size_arg of
        None \<Rightarrow> Inr ''''
      | Some sz \<Rightarrow>
          (let prefix = (if sign \<and> sz > 0 then ''+'' else '''');
               (pow, units) = power_units metric
           in case scale_loop pow (length units) precision (IntV sz) 0 of
                Inl err \<Rightarrow> Inl err
              | Inr (sz', n) \<Rightarrow> except_KeyError (format_size prefix units precision sz' n)))"

text \<open>The float \<open>3.14\<close>, which is \<open>0x1.91eb851eb851fp+1\<close>.\<close>

definition float_3_14 :: pyfloat where
  "float_3_14 = Flt False 7070651414971679 (- 51)"


section \<open>The scan as a loop over the visited files\<close>


lemma scan_files_append:
  "scan_files ps (xs @ ys) st =
     (case scan_files ps xs st of Inl err \<Rightarrow> Inl err | Inr st' \<Rightarrow> scan_files ps ys st')"
  by (induction xs arbitrary: st) (auto split: sum.splits)

lemma files_loop_scan_files:
  "files_loop ps d fs st = scan_files ps (map (\<lambda>(file_name, e). (path_join d file_name, e)) fs) st"
  by (induction fs arbitrary: st) (auto split: sum.splits)

lemma walk_scan_files:
  "walk ps d ents st = scan_files ps (visited ps d ents) st"
  "walk_dirs ps d ents st = scan_files ps (visited_dirs ps d ents) st"
  by (induction ps d ents st and ps d ents st rule: walk_walk_dirs.induct)
     (simp_all add: walk.simps visited.simps scan_files_append files_loop_scan_files split: sum.splits)

lemma get_directory_size_visited:
  "get_directory_size root d raw =
     scan_result (scan_files (map prepare_pattern raw)
       (visited (map prepare_pattern raw) d root) init_state)"
  by (simp add: get_directory_size_def walk_scan_files)

lemma is_excluded_iff: "is_excluded ps path \<longleftrightarrow> (\<exists>p \<in> set ps. match p path)"
  by (induction ps) auto

lemma is_excluded_set_cong: "set ps = set qs \<Longrightarrow> is_excluded ps = is_excluded qs"
  by (rule ext) (simp add: is_excluded_iff)

lemma process_file_cong:
  "is_excluded ps = is_excluded qs \<Longrightarrow> process_file ps p e st = process_file qs p e st"
  by (cases e) simp_all

lemma files_loop_cong:
  "is_excluded ps = is_excluded qs \<Longrightarrow> files_loop ps d fs st = files_loop qs d fs st"
  by (induction fs arbitrary: st) (auto simp: process_file_cong [of ps qs] split: sum.splits)

lemma walk_cong:
  "is_excluded ps = is_excluded qs \<Longrightarrow> walk ps d ents st = walk qs d ents st"
  "is_excluded ps = is_excluded qs \<Longrightarrow> walk_dirs ps d ents st = walk_dirs qs d ents st"
proof (induction ps d ents st and ps d ents st rule: walk_walk_dirs.induct)
  case (1 pats d ents st)
  note ex = "1.prems"
  have fl: "files_loop pats d (nondirs ents) st = files_loop qs d (nondirs ents) st"
    by (rule files_loop_cong [OF ex])
  show ?case
  proof (cases "is_excluded pats d")
    case True
    then show ?thesis using ex by (simp add: walk.simps)
  next
    case False
    show ?thesis
    proof (cases "files_loop pats d (nondirs ents) st")
      case (Inl e)
      then show ?thesis using False ex fl by (simp add: walk.simps)
    next
      case (Inr b)
      from "1.IH" [OF False Inr ex]
      have "walk_dirs pats d ents b = walk_dirs qs d ents b" .
      then show ?thesis using False Inr ex fl by (simp add: walk.simps)
    qed
  qed
qed (simp_all split: sum.splits)


subsection \<open>Trees without symbolic links\<close>

lemma nondirs_Cons:
  "nondirs ((name, e) # rest) = (if is_dir e then nondirs rest else (name, e) # nondirs rest)"
  by (simp add: nondirs_def)

lemma files_loop_strip_symlinks:
  "files_loop ps d (nondirs (strip_symlinks ents)) st = files_loop ps d (nondirs ents) st"
proof (induction ents arbitrary: st rule: strip_symlinks.induct)
  case 1
  show ?case by simp
next
  case (2 name t rest)
  then show ?case by (simp add: nondirs_Cons)
next
  case (3 name sub rest)
  then show ?case by (simp add: nondirs_Cons)
next
  case (4 name r rest)
  then show ?case by (simp add: nondirs_Cons split: sum.splits)
qed

lemma walk_strip_symlinks:
  "walk ps d (strip_symlinks ents) st = walk ps d ents st"
  "walk_dirs ps d (strip_symlinks ents) st = walk_dirs ps d ents st"
proof (induction ps d ents st and ps d ents st rule: walk_walk_dirs.induct)
  case (1 ps d ents st)
  show ?case
  proof (cases "is_excluded ps d")
    case True
    then show ?thesis by (simp add: walk.simps)
  next
    case False
    show ?thesis
    proof (cases "files_loop ps d (nondirs ents) st")
      case (Inl e)
      then show ?thesis using False by (simp add: walk.simps files_loop_strip_symlinks)
    next
      case (Inr b)
      from "1.IH" [OF False Inr] show ?thesis
        using False Inr by (simp add: walk.simps files_loop_strip_symlinks)
    qed
  qed
qed (simp_all split: sum.splits)


subsection \<open>The set \<open>seen\<close>\<close>

lemma count_file_seen: "st_ino s \<in> seen st \<Longrightarrow> count_file x s st = st"
  by (simp add: count_file_def)

lemma count_file_seen_mono: "seen st \<subseteq> seen (count_file x s st)"
  by (auto simp: count_file_def Let_def)

lemma count_file_in_seen: "st_ino s \<in> seen (count_file x s st)"
  by (auto simp: count_file_def Let_def)

lemma process_file_seen_mono: "process_file ps p e st = Inr st' \<Longrightarrow> seen st \<subseteq> seen st'"
  using count_file_seen_mono by (cases e) (auto split: sum.splits if_splits)

lemma scan_files_seen_mono: "scan_files ps xs st = Inr st' \<Longrightarrow> seen st \<subseteq> seen st'"
proof (induction xs arbitrary: st)
  case Nil
  then show ?case by simp
next
  case (Cons x xs)
  obtain p e where x: "x = (p, e)" by (cases x)
  from Cons.prems obtain st1 where 1: "process_file ps p e st = Inr st1"
    and 2: "scan_files ps xs st1 = Inr st'"
    by (auto simp: x split: sum.splits)
  from process_file_seen_mono [OF 1] Cons.IH [OF 2] show ?case by blast
qed

lemma scan_files_failure:
  "scan_files ps (pre @ (p, File (Inl e)) # post) st =
     (case scan_files ps pre st of
        Inl err \<Rightarrow> Inl err
      | Inr st' \<Rightarrow>
          if e = FileNotFoundError \<or> e = PermissionError then scan_files ps post st' else Inl e)"
  by (simp add: scan_files_append split: sum.splits)

lemma scan_files_second_name:
  assumes "st_ino s1 = st_ino s2"
  shows "scan_files ps (pre @ (p1, File (Inr s1)) # mid @ (p2, File (Inr s2)) # post) st =
         scan_files ps (pre @ (p1, File (Inr s1)) # mid @ post) st"
proof (cases "scan_files ps pre st")
  case (Inl err)
  then show ?thesis by (simp add: scan_files_append)
next
  case (Inr a)
  define b where "b = count_file (is_excluded ps p1) s1 a"
  have b: "st_ino s2 \<in> seen b"
    unfolding b_def using count_file_in_seen [of s1] assms by simp
  show ?thesis
  proof (cases "scan_files ps mid b")
    case (Inl err)
    then show ?thesis using Inr by (simp add: scan_files_append b_def)
  next
    case c: (Inr c)
    from scan_files_seen_mono [OF c] b have "st_ino s2 \<in> seen c" by blast
    then have "count_file (is_excluded ps p2) s2 c = c" by (rule count_file_seen)
    then show ?thesis using Inr c by (simp add: scan_files_append b_def)
  qed
qed


subsection \<open>A scan that starts with an inode number in \<open>seen\<close>\<close>

lemma count_file_mark_seen:
  "st_ino s \<noteq> i \<Longrightarrow> count_file x s (mark_seen i st) = mark_seen i (count_file x s st)"
  by (simp add: count_file_def mark_seen_def Let_def insert_commute)

lemma count_file_marked: "count_file x s (mark_seen (st_ino s) st) = mark_seen (st_ino s) st"
  by (simp add: count_file_def mark_seen_def)

lemma count_file_excluded: "count_file True s st = mark_seen (st_ino s) st"
  by (simp add: count_file_def mark_seen_def Let_def insert_absorb)

lemma process_file_mark_seen:
  "process_file ps p e (mark_seen i st) =
     (if has_ino i e then Inr (mark_seen i st)
      else map_sum id (mark_seen i) (process_file ps p e st))"
proof (cases e)
  case (File r)
  show ?thesis
  proof (cases r)
    case (Inl err)
    then show ?thesis using File by (simp add: has_ino_def)
  next
    case (Inr s)
    then show ?thesis using File
      by (auto simp: has_ino_def count_file_mark_seen count_file_marked)
  qed
qed (simp_all add: has_ino_def)

lemma scan_files_mark_seen:
  "scan_files ps xs (mark_seen i st) =
     map_sum id (mark_seen i) (scan_files ps (filter (\<lambda>(q, e). \<not> has_ino i e) xs) st)"
proof (induction xs arbitrary: st)
  case Nil
  show ?case by simp
next
  case (Cons x xs)
  obtain p e where x: "x = (p, e)" by (cases x)
  show ?case
  proof (cases "has_ino i e")
    case True
    then show ?thesis using Cons.IH [of st] by (simp add: x process_file_mark_seen)
  next
    case False
    show ?thesis
    proof (cases "process_file ps p e st")
      case (Inl err)
      then show ?thesis using False by (simp add: x process_file_mark_seen)
    next
      case (Inr st1)
      then show ?thesis using False Cons.IH [of st1] by (simp add: x process_file_mark_seen)
    qed
  qed
qed

lemma scan_result_mark_seen: "scan_result (map_sum id (mark_seen i) r) = scan_result r"
  by (cases r) (simp_all add: scan_result_def mark_seen_def)

lemma filter_no_ino:
  "\<forall>(q, e) \<in> set xs. \<not> has_ino i e \<Longrightarrow> filter (\<lambda>(q, e). \<not> has_ino i e) xs = xs"
  by (induction xs) auto

lemma has_ino_self: "has_ino (st_ino s) (File (Inr s))"
  by (simp add: has_ino_def)

lemma scan_files_excluded_name:
  assumes "is_excluded ps p"
  shows "scan_result (scan_files ps (pre @ (p, File (Inr s)) # post) st) =
         scan_result (scan_files ps (pre @ filter (\<lambda>(q, e). \<not> has_ino (st_ino s) e) post) st)"
proof (cases "scan_files ps pre st")
  case (Inl err)
  then show ?thesis by (simp add: scan_files_append)
next
  case (Inr a)
  then show ?thesis using assms
    by (simp add: scan_files_append count_file_excluded scan_files_mark_seen scan_result_mark_seen)
qed

lemma count_file_seen_filtered:
  "seen_filtered (count_file x s st) \<subseteq> insert (st_ino s) (seen_filtered st)"
  by (auto simp: count_file_def Let_def)

lemma scan_files_seen_filtered:
  "scan_files ps xs st = Inr st' \<Longrightarrow> j \<in> seen_filtered st' \<Longrightarrow>
     j \<in> seen_filtered st \<or> (\<exists>(q, e) \<in> set xs. has_ino j e)"
proof (induction xs arbitrary: st)
  case Nil
  then show ?case by simp
next
  case (Cons x xs)
  obtain p e where x: "x = (p, e)" by (cases x)
  from Cons.prems(1) obtain st1 where 1: "process_file ps p e st = Inr st1"
    and 2: "scan_files ps xs st1 = Inr st'"
    by (auto simp: x split: sum.splits)
  from Cons.IH [OF 2 Cons.prems(2)]
  have "j \<in> seen_filtered st1 \<or> (\<exists>(q, e) \<in> set xs. has_ino j e)" .
  moreover have "j \<in> seen_filtered st1 \<Longrightarrow> j \<in> seen_filtered st \<or> has_ino j e"
    using 1 count_file_seen_filtered
    by (cases e) (auto simp: has_ino_def split: sum.splits if_splits)
  ultimately show ?case by (auto simp: x)
qed


subsection \<open>The files that are counted\<close>

lemma counted_by_init: "counted_by {} init_state"
  by (simp add: counted_by_def init_state_def)

lemma count_file_counted_by:
  assumes "counted_by S st"
  shows "counted_by (if st_ino s \<in> seen st \<or> x then S else insert s S) (count_file x s st)"
proof (cases "st_ino s \<in> seen st \<or> x")
  case True
  then show ?thesis using assms by (auto simp: count_file_def counted_by_def Let_def)
next
  case False
  then have new: "st_ino s \<notin> seen st" and nx: "\<not> x" by simp_all
  from assms new have "st_ino s \<notin> st_ino ` S" by (auto simp: counted_by_def)
  then have notin: "s \<notin> S" by blast
  from assms have "inj_on st_ino S" by (simp add: counted_by_def)
  moreover from \<open>st_ino s \<notin> st_ino ` S\<close> have "st_ino s \<notin> st_ino ` (S - {s})" by blast
  ultimately have "inj_on st_ino (insert s S)" by (simp only: inj_on_insert simp_thms)
  moreover have "sum st_size (insert s S) = st_size s + sum st_size S"
    using assms notin by (simp add: counted_by_def)
  ultimately show ?thesis using assms new nx
    by (auto simp: count_file_def counted_by_def Let_def)
qed

lemma process_file_counted_by:
  assumes "process_file ps p e st = Inr st'" and "counted_by S st" and "S \<subseteq> F"
      and "files_of [(p, e)] \<subseteq> F"
  shows "\<exists>S'. counted_by S' st' \<and> S' \<subseteq> F"
proof (cases e)
  case (File r)
  show ?thesis
  proof (cases r)
    case (Inl err)
    then show ?thesis using assms File by (auto split: if_splits)
  next
    case (Inr s)
    let ?x = "is_excluded ps p"
    let ?S = "if st_ino s \<in> seen st \<or> ?x then S else insert s S"
    have "counted_by ?S st'"
      using count_file_counted_by [OF assms(2), of s ?x] assms(1) File Inr by simp
    moreover have "?S \<subseteq> F" using assms(3,4) File Inr by (auto simp: files_of_def)
    ultimately show ?thesis by blast
  qed
qed (use assms in auto)

lemma files_of_Cons: "files_of (x # xs) = files_of [x] \<union> files_of xs"
  by (auto simp: files_of_def)

lemma scan_files_counted_by:
  "scan_files ps xs st = Inr st' \<Longrightarrow> counted_by S st \<Longrightarrow> S \<subseteq> F \<Longrightarrow> files_of xs \<subseteq> F
     \<Longrightarrow> \<exists>S'. counted_by S' st' \<and> S' \<subseteq> F"
proof (induction xs arbitrary: st S)
  case Nil
  then show ?case by auto
next
  case (Cons x xs)
  obtain p e where x: "x = (p, e)" by (cases x)
  from Cons.prems(1) obtain st1 where 1: "process_file ps p e st = Inr st1"
    and 2: "scan_files ps xs st1 = Inr st'"
    by (auto simp: x split: sum.splits)
  from Cons.prems(4) have f: "files_of [(p, e)] \<subseteq> F" "files_of xs \<subseteq> F"
    using files_of_Cons [of x xs] by (auto simp: x)
  from process_file_counted_by [OF 1 Cons.prems(2,3) f(1)]
  obtain S1 where "counted_by S1 st1" "S1 \<subseteq> F" by blast
  from Cons.IH [OF 2 this f(2)] show ?case .
qed


section \<open>Patterns without special characters\<close>

lemma translate_loop_literal:
  "\<forall>c \<in> set s. \<not> magic c \<Longrightarrow> translate_loop res (s @ t) = translate_loop (res @ map Lit s) t"
  by (induction s arbitrary: res) (auto simp: magic_def)

lemma split_sep_set: "c \<in> set (split_sep s) \<Longrightarrow> set c \<subseteq> set s"
proof (induction s arbitrary: c)
  case Nil
  then show ?case by simp
next
  case (Cons a s)
  show ?case
  proof (cases "a = sep")
    case True
    then show ?thesis using Cons by auto
  next
    case False
    show ?thesis
    proof (cases "split_sep s")
      case Nil
      then show ?thesis using False Cons.prems by simp
    next
      case (Cons h t)
      then have "set h \<subseteq> set s" using Cons.IH [of h] by simp
      moreover have "set c' \<subseteq> set s" if "c' \<in> set t" for c'
        using Cons.IH [of c'] Cons that by simp
      ultimately show ?thesis using False Cons Cons.prems by auto
    qed
  qed
qed

lemma norm_comps_set: "set (norm_comps ini comps acc) \<subseteq> set comps \<union> set acc"
proof (induction ini comps acc rule: norm_comps.induct)
  case (1 ini new_comps)
  show ?case by simp
next
  case (2 ini part comps new_comps)
  have b: "set (butlast new_comps) \<subseteq> set new_comps" by (auto dest: in_set_butlastD)
  show ?case
  proof (cases "part = [] \<or> part = ''.''")
    case True
    then show ?thesis using 2 by auto
  next
    case n1: False
    show ?thesis
    proof (cases "part \<noteq> ''..'' \<or> (ini = 0 \<and> new_comps = [])
                \<or> (new_comps \<noteq> [] \<and> last new_comps = ''..'')")
      case True
      with n1 2(2) have "set (norm_comps ini comps (new_comps @ [part]))
          \<subseteq> set comps \<union> set (new_comps @ [part])" by blast
      moreover have "norm_comps ini (part # comps) new_comps
          = norm_comps ini comps (new_comps @ [part])" using n1 True by simp
      ultimately show ?thesis by auto
    next
      case n2: False
      show ?thesis
      proof (cases "new_comps \<noteq> []")
        case True
        with n1 n2 2(3) have "set (norm_comps ini comps (butlast new_comps))
            \<subseteq> set comps \<union> set (butlast new_comps)" by blast
        moreover have "norm_comps ini (part # comps) new_comps
            = norm_comps ini comps (butlast new_comps)" using n1 n2 True by simp
        ultimately show ?thesis using b by auto
      next
        case False
        with n1 n2 2(4) have "set (norm_comps ini comps new_comps)
            \<subseteq> set comps \<union> set new_comps" by blast
        moreover have "norm_comps ini (part # comps) new_comps
            = norm_comps ini comps new_comps" using n1 n2 False by simp
        ultimately show ?thesis by auto
      qed
    qed
  qed
qed

lemma join_sep_set: "set (join_sep cs) \<subseteq> \<Union>(set ` set cs) \<union> {sep}"
  by (induction cs rule: join_sep.induct) auto

lemma normpath_set: "set (normpath p) \<subseteq> set p \<union> {CHR ''.'', sep}"
proof -
  have "set (join_sep (norm_comps ini (split_sep p) [])) \<subseteq> set p \<union> {sep}" for ini
    using join_sep_set [of "norm_comps ini (split_sep p) []"]
      norm_comps_set [of ini "split_sep p" "[]"] split_sep_set [of _ p]
    by fastforce
  then show ?thesis by (auto simp: normpath_def Let_def)
qed

lemma normpath_literal:
  assumes "\<forall>c \<in> set p. \<not> magic c"
  shows "\<forall>c \<in> set (normpath p). \<not> magic c"
proof
  fix c assume "c \<in> set (normpath p)"
  with normpath_set [of p] have "c \<in> set p \<or> c = CHR ''.'' \<or> c = sep" by auto
  with assms show "\<not> magic c" by (auto simp: magic_def sep_def)
qed

lemma re_match_literal: "re_match (map Lit s @ ts) (s @ y) = re_match ts y"
  by (induction s) auto

lemma re_match_Star: "re_match [Star] y"
  by (induction y) auto

lemma re_match_Star_sep: "re_match [Star, Lit sep] (y @ [sep])"
  by (induction y) auto


lemma split_sep_no_sep: "c \<in> set (split_sep s) \<Longrightarrow> sep \<notin> set c"
proof (induction s arbitrary: c)
  case Nil
  then show ?case by simp
next
  case (Cons a s)
  show ?case
  proof (cases "a = sep")
    case True
    then show ?thesis using Cons by auto
  next
    case False
    show ?thesis
    proof (cases "split_sep s")
      case Nil
      then show ?thesis using False Cons.prems by simp
    next
      case (Cons h t)
      then have "sep \<notin> set h" using Cons.IH [of h] by simp
      moreover have "sep \<notin> set c'" if "c' \<in> set t" for c'
        using Cons.IH [of c'] Cons that by simp
      ultimately show ?thesis using False Cons Cons.prems by auto
    qed
  qed
qed

lemma norm_comps_nonempty:
  "[] \<notin> set acc \<Longrightarrow> [] \<notin> set (norm_comps ini comps acc)"
proof (induction ini comps acc rule: norm_comps.induct)
  case (1 ini new_comps)
  then show ?case by simp
next
  case (2 ini part comps new_comps)
  have b: "[] \<notin> set (butlast new_comps)" using 2(5) by (auto dest: in_set_butlastD)
  show ?case
  proof (cases "part = [] \<or> part = ''.''")
    case True
    then show ?thesis using 2(1,5) by auto
  next
    case n1: False
    show ?thesis
    proof (cases "part \<noteq> ''..'' \<or> (ini = 0 \<and> new_comps = [])
                \<or> (new_comps \<noteq> [] \<and> last new_comps = ''..'')")
      case True
      have "[] \<notin> set (new_comps @ [part])" using n1 2(5) by auto
      with n1 True 2(2) have "[] \<notin> set (norm_comps ini comps (new_comps @ [part]))" by blast
      moreover have "norm_comps ini (part # comps) new_comps
          = norm_comps ini comps (new_comps @ [part])" using n1 True by simp
      ultimately show ?thesis by simp
    next
      case n2: False
      show ?thesis
      proof (cases "new_comps \<noteq> []")
        case True
        with n1 n2 2(3) b have "[] \<notin> set (norm_comps ini comps (butlast new_comps))" by blast
        moreover have "norm_comps ini (part # comps) new_comps
            = norm_comps ini comps (butlast new_comps)" using n1 n2 True by simp
        ultimately show ?thesis by simp
      next
        case False
        with n1 n2 2(4,5) have "[] \<notin> set (norm_comps ini comps new_comps)" by blast
        moreover have "norm_comps ini (part # comps) new_comps
            = norm_comps ini comps new_comps" using n1 n2 False by simp
        ultimately show ?thesis by simp
      qed
    qed
  qed
qed

lemma join_sep_last:
  "cs \<noteq> [] \<Longrightarrow> [] \<notin> set cs \<Longrightarrow> join_sep cs \<noteq> [] \<and> last (join_sep cs) = last (last cs)"
  by (induction cs rule: join_sep.induct) auto

lemma normpath_end:
  "(\<forall>c \<in> set (normpath p). c = sep) \<or> \<not> endswith_sep (normpath p)"
proof (cases "p = []")
  case True
  then show ?thesis by (simp add: normpath_def endswith_sep_def sep_def)
next
  case False
  define ini where "ini = initial_slashes p"
  define comps where "comps = norm_comps ini (split_sep p) []"
  have ne: "[] \<notin> set comps" unfolding comps_def by (rule norm_comps_nonempty) simp
  have ns: "sep \<notin> set c" if "c \<in> set comps" for c
    using that norm_comps_set [of ini "split_sep p" "[]"] split_sep_no_sep [of c p]
    by (auto simp: comps_def)
  show ?thesis
  proof (cases "comps = []")
    case True
    then show ?thesis using False
      by (auto simp: normpath_def Let_def ini_def [symmetric] comps_def [symmetric]
            endswith_sep_def sep_def)
  next
    case c: False
    then have lc: "last comps \<in> set comps" by simp
    with ne have "last comps \<noteq> []" by metis
    then have "last (last comps) \<in> set (last comps)" by simp
    with ns [OF lc] have "last (last comps) \<noteq> sep" by metis
    with join_sep_last [OF c ne] have j: "join_sep comps \<noteq> []" "last (join_sep comps) \<noteq> sep"
      by simp_all
    have "normpath p = replicate ini sep @ join_sep comps"
      using False j(1) by (simp add: normpath_def Let_def ini_def [symmetric] comps_def [symmetric])
    then show ?thesis using j by (simp add: endswith_sep_def)
  qed
qed

lemma rstrip_sep_id: "\<not> endswith_sep s \<Longrightarrow> rstrip_sep s = s"
  by (cases s rule: rev_cases) (simp_all add: rstrip_sep_def endswith_sep_def)

lemma lstrip_sep_append:
  "lstrip_sep s \<noteq> [] \<Longrightarrow> lstrip_sep (s @ t) = lstrip_sep s @ t"
  by (induction s) (auto simp: lstrip_sep_def)

lemma lstrip_sep_all:
  "lstrip_sep s = [] \<Longrightarrow> lstrip_sep (s @ t) = lstrip_sep t"
  by (induction s) (auto simp: lstrip_sep_def split: if_splits)

lemma lstrip_sep_set: "set (lstrip_sep s) \<subseteq> set s"
  by (auto simp: lstrip_sep_def dest: set_dropWhileD)

lemma lstrip_sep_nonempty_end:
  "lstrip_sep s \<noteq> [] \<Longrightarrow> \<not> (\<forall>c \<in> set s. c = sep)"
  by (induction s) (auto simp: lstrip_sep_def split: if_splits)

lemma translate_literal:
  "literal s \<Longrightarrow> translate (s @ t) = translate_loop (map Lit s) t"
  by (simp add: translate_def literal_def translate_loop_literal)


lemma prepare_pattern_plain:
  assumes "literal p" and "\<not> endswith_sep p"
  shows "prepare_pattern p =
           (if lstrip_sep (normpath p) = [] then [Star]
            else map Lit (lstrip_sep (normpath p)) @ [Lit sep, Star])"
proof (cases "lstrip_sep (normpath p) = []")
  case True
  then have "lstrip_sep (normpath p @ [sep] @ ''*'') = ''*''"
    by (simp add: lstrip_sep_all) (simp add: lstrip_sep_def sep_def)
  then show ?thesis using assms(2) True
    by (simp add: prepare_pattern_def translate_def)
next
  case False
  have l: "literal (lstrip_sep (normpath p))"
    using normpath_literal [of p] assms(1) lstrip_sep_set [of "normpath p"]
    by (auto simp: literal_def)
  have "lstrip_sep (normpath p @ [sep] @ ''*'') = lstrip_sep (normpath p) @ ([sep] @ ''*'')"
    using False by (simp add: lstrip_sep_append)
  then show ?thesis using assms(2) False
    by (simp add: prepare_pattern_def translate_literal [OF l]) (simp add: sep_def)
qed

lemma prepare_pattern_contents:
  assumes "literal p" and "endswith_sep p" and "lstrip_sep (normpath p) \<noteq> []"
  shows "prepare_pattern p = map Lit (lstrip_sep (normpath p)) @ [Lit sep, Star, Lit sep]"
proof -
  have l: "literal (lstrip_sep (normpath p))"
    using normpath_literal [of p] assms(1) lstrip_sep_set [of "normpath p"]
    by (auto simp: literal_def)
  from lstrip_sep_nonempty_end [OF assms(3)] normpath_end [of p]
  have "\<not> endswith_sep (normpath p)" by blast
  then have r: "rstrip_sep (normpath p) = normpath p" by (rule rstrip_sep_id)
  have "lstrip_sep (normpath p @ [sep] @ ''*'' @ [sep])
      = lstrip_sep (normpath p) @ ([sep] @ ''*'' @ [sep])"
    using assms(3) by (simp add: lstrip_sep_append)
  then show ?thesis using assms(2)
    by (simp add: prepare_pattern_def r translate_literal [OF l]) (simp add: sep_def)
qed

lemma match_literal_prefix:
  "lstrip_sep d \<noteq> [] \<Longrightarrow>
     match (map Lit (lstrip_sep d) @ ts) (d @ rest) = re_match ts (rest @ [sep])"
  by (simp add: match_def lstrip_sep_append re_match_literal)

lemma match_literal_self:
  "match (map Lit (lstrip_sep d) @ ts) d = re_match ts [sep]"
  using re_match_literal [of "lstrip_sep d" ts "[sep]"] by (simp add: match_def)


section \<open>The loop of \<open>pretty_bytes\<close>\<close>








section \<open>Sizes that do not overflow\<close>


















section \<open>Evaluation of the model\<close>

lemmas path_simps =
  sep_def lstrip_sep_def rstrip_sep_def endswith_sep_def startswith_sep_def
  initial_slashes_def normpath_def path_join_def

lemmas glob_simps =
  bracket_end_def close_chunks_def bracket_stuff_def bracket_tok_def translate_def
  prepare_pattern_def match_def

lemmas scan_simps =
  walk.simps visited.simps nondirs_def init_state_def count_file_def scan_result_def get_directory_size_def

lemmas number_simps =
  bit_length.simps round_half_even_def nearest_double_def int_truediv_def int_round_def Let_def

lemmas repr_simps =
  digits10.simps lead_zeros.simps dec_point_def reads_as_def shortest.simps rstrip_zeros_def
  exp_str_def repr_digits_def int_str_def

lemmas pretty_simps =
  power_units_def scale_loop.simps format_size_def except_KeyError_def pretty_bytes_def

section \<open>The example with an excluded directory\<close>

text \<open>
  C1 (as stated in the specification): scanning the tree
  \<open>root/{a.txt:100, b/c.txt:200, b/d.txt:50}\<close> with the single exclude pattern
  \<open>b/\<close> returns size 100 and count 1. The code does not do so: a pattern is matched
  against the whole path from its first component, \<open>root/b/c.txt\<close> does not start
  with \<open>b/\<close>, nothing is excluded, and the scan returns 350 and 3.
\<close>

theorem C1_pattern_b_counterexample:
  "get_directory_size tree_with_b ''root'' [''b/''] \<noteq> Inr (100, 1)
   \<and> get_directory_size tree_with_b ''root'' [''b/''] = Inr (350, 3)"
  by (simp add: tree_with_b_def reg_def scan_simps glob_simps path_simps)

text \<open>
  C1 (amended): the same tree scanned at the path \<open>root\<close> returns size 100 and count 1
  when the pattern names the directory by its whole path, \<open>root/b/\<close>; so does the
  pattern \<open>b/\<close> when the tree is scanned at the path \<open>/\<close>, where the directory's
  path is \<open>/b\<close>.
\<close>

theorem C1_pattern_full_path:
  "get_directory_size tree_with_b ''root'' [''root/b/''] = Inr (100, 1)
   \<and> get_directory_size tree_with_b ''/'' [''b/''] = Inr (100, 1)"
  by (simp add: tree_with_b_def reg_def scan_simps glob_simps path_simps)

section \<open>The order of the exclude patterns\<close>

text \<open>
  C5: for every directory listing, every root path and every list of raw exclude
  patterns, scanning with a permutation of the list returns the same pair (or raises
  the same exception) as scanning with the list itself; and a path is excluded by the
  compiled list if and only if at least one of the compiled patterns matches it.
\<close>

theorem C5_pattern_order:
  assumes "mset pats' = mset pats"
  shows "get_directory_size root d pats' = get_directory_size root d pats
         \<and> (is_excluded (map prepare_pattern pats') path
              \<longleftrightarrow> (\<exists>p \<in> set pats. match (prepare_pattern p) path))"
proof -
  from assms have "set pats' = set pats" by (rule mset_eq_setD)
  then have s: "set (map prepare_pattern pats') = set (map prepare_pattern pats)" by simp
  have "is_excluded (map prepare_pattern pats') = is_excluded (map prepare_pattern pats)"
    by (rule is_excluded_set_cong [OF s])
  then have "walk (map prepare_pattern pats') d root init_state
      = walk (map prepare_pattern pats) d root init_state"
    by (rule walk_cong(1))
  then have "get_directory_size root d pats' = get_directory_size root d pats"
    by (simp only: get_directory_size_def)
  moreover have "is_excluded (map prepare_pattern pats') path
      \<longleftrightarrow> (\<exists>p \<in> set pats. match (prepare_pattern p) path)"
    using \<open>set pats' = set pats\<close> by (simp add: is_excluded_iff)
  ultimately show ?thesis by simp
qed

text \<open>
  The theorem at the tree of the first example, with the patterns \<open>x\<close> and
  \<open>root/b/\<close> in both orders.
\<close>

theorem C5_pattern_order_witness:
  "mset [''x'', ''root/b/''] = mset [''root/b/'', ''x'']
   \<and> get_directory_size tree_with_b ''root'' [''x'', ''root/b/''] = Inr (100, 1)
   \<and> get_directory_size tree_with_b ''root'' [''root/b/'', ''x''] = Inr (100, 1)
   \<and> is_excluded (map prepare_pattern [''x'', ''root/b/'']) ''root/b/c.txt''"
  using C5_pattern_order [of "[''x'', ''root/b/'']" "[''root/b/'', ''x'']" tree_with_b "''root''" "''root/b/c.txt''"]
  by (simp add: tree_with_b_def reg_def scan_simps glob_simps path_simps)


section \<open>Symbolic links\<close>

text \<open>
  C6: for every file tree and every list of exclude patterns, no symbolic link
  contributes to the size or to the count, and none is followed: the scan of a tree
  returns what the scan of the same tree with all its symbolic links (and whatever
  they point to) removed returns. The body of the file loop leaves the state as it
  is on a symbolic link, whatever the patterns, the path and the target, before any
  pattern is tested or \<open>os.stat\<close> is called; and the walk does not descend into
  a symbolic link.
\<close>

theorem C6_symlinks_skipped:
  "get_directory_size (strip_symlinks root) d pats = get_directory_size root d pats
   \<and> process_file ps p (Symlink t) st = Inr st
   \<and> walk_dirs ps d ((name, Symlink t) # rest) st = walk_dirs ps d rest st"
  by (simp add: get_directory_size_def walk_strip_symlinks)


section \<open>Failures of \<open>os.stat\<close>\<close>

text \<open>
  C7: let the file loop meet, at the path \<open>p\<close>, a file on which \<open>os.stat\<close> raises
  \<open>e\<close>, after the files \<open>pre\<close> and before the files \<open>post\<close>. If \<open>e\<close> is
  \<open>FileNotFoundError\<close> or \<open>PermissionError\<close>, the body of the loop leaves the sum and
  the two sets as they are, and the scan returns what it returns on \<open>pre\<close> followed
  by \<open>post\<close>: the file contributes nothing and the scan goes on. If \<open>e\<close> is of any
  other class, the body raises \<open>e\<close>, and the scan raises \<open>e\<close> (unless a file of
  \<open>pre\<close> has already made it raise).
\<close>

theorem C7_stat_failure:
  assumes "visited (map prepare_pattern pats) d root = pre @ (p, File (Inl e)) # post"
  shows "process_file ps p (File (Inl e)) st =
           (if e = FileNotFoundError \<or> e = PermissionError then Inr st else Inl e)
         \<and> get_directory_size root d pats =
           (if e = FileNotFoundError \<or> e = PermissionError
            then scan_result (scan_files (map prepare_pattern pats) (pre @ post) init_state)
            else (case scan_files (map prepare_pattern pats) pre init_state of
                    Inl err \<Rightarrow> Inl err
                  | Inr st' \<Rightarrow> Inl e))"
  by (simp add: get_directory_size_visited assms scan_files_failure scan_files_append
        scan_result_def split: sum.splits)

text \<open>
  The theorem at \<open>root/{a.txt:100, gone, z.txt:7}\<close>, once with a
  \<open>PermissionError\<close> and once with another \<open>OSError\<close> on \<open>gone\<close>.
\<close>

theorem C7_stat_failure_witness:
  "visited (map prepare_pattern []) ''root'' (tree_fail PermissionError) =
     [(''root/a.txt'', reg 1 100)] @ (''root/gone'', File (Inl PermissionError)) # [(''root/z.txt'', reg 2 7)]
   \<and> get_directory_size (tree_fail PermissionError) ''root'' [] = Inr (107, 2)
   \<and> visited (map prepare_pattern []) ''root'' (tree_fail OSError) =
     [(''root/a.txt'', reg 1 100)] @ (''root/gone'', File (Inl OSError)) # [(''root/z.txt'', reg 2 7)]
   \<and> get_directory_size (tree_fail OSError) ''root'' [] = Inl OSError"
  using C7_stat_failure [where pats = "[]" and d = "''root''" and root = "tree_fail PermissionError"
          and pre = "[(''root/a.txt'', reg 1 100)]" and p = "''root/gone''" and e = PermissionError
          and post = "[(''root/z.txt'', reg 2 7)]"]
        C7_stat_failure [where pats = "[]" and d = "''root''" and root = "tree_fail OSError"
          and pre = "[(''root/a.txt'', reg 1 100)]" and p = "''root/gone''" and e = OSError
          and post = "[(''root/z.txt'', reg 2 7)]"]
  by (simp add: tree_fail_def reg_def scan_simps path_simps)


section \<open>The identity of a file is its inode number\<close>

text \<open>
  C9: the scan identifies a file by \<open>st_ino\<close> alone. When the file loop meets two
  files with the same inode number on different devices, the second one is taken for
  a hard link that has been seen: the scan returns what it returns without the
  second file, so that of the two only the first can contribute to the size and to
  the count.
\<close>

theorem C9_inode_alone:
  assumes "visited (map prepare_pattern pats) d root =
             pre @ (p1, File (Inr s1)) # mid @ (p2, File (Inr s2)) # post"
      and "st_ino s1 = st_ino s2"
      and "st_dev s1 \<noteq> st_dev s2"
  shows "get_directory_size root d pats =
           scan_result (scan_files (map prepare_pattern pats)
             (pre @ (p1, File (Inr s1)) # mid @ post) init_state)"
  by (simp only: get_directory_size_visited assms(1) scan_files_second_name [OF assms(2)])

text \<open>
  The theorem at \<open>root/{a:100, m/b:50}\<close> with inode number 7 on two devices: the
  scan returns 100 and 1.
\<close>

theorem C9_inode_alone_witness:
  "visited (map prepare_pattern []) ''root'' tree_two_devices =
     [] @ (''root/a'', File (Inr \<lparr>st_ino = 7, st_dev = 1, st_size = 100\<rparr>)) # []
        @ (''root/m/b'', File (Inr \<lparr>st_ino = 7, st_dev = 2, st_size = 50\<rparr>)) # []
   \<and> get_directory_size tree_two_devices ''root'' [] = Inr (100, 1)"
  using C9_inode_alone [where pats = "[]" and d = "''root''" and root = tree_two_devices
          and pre = "[]" and ?p1.0 = "''root/a''" and ?s1.0 = "\<lparr>st_ino = 7, st_dev = 1, st_size = 100\<rparr>"
          and mid = "[]" and ?p2.0 = "''root/m/b''" and ?s2.0 = "\<lparr>st_ino = 7, st_dev = 2, st_size = 50\<rparr>"
          and post = "[]"]
  by (simp add: tree_two_devices_def scan_simps path_simps)


section \<open>An excluded first name of an inode\<close>

text \<open>
  C2: let the file loop meet, at the path \<open>p\<close>, a file that is not a symbolic link,
  with the \<open>stat\<close> result \<open>s\<close>; let no file met before it have the inode number
  of \<open>s\<close>, and let \<open>p\<close> match one of the exclude patterns. Then this inode
  contributes nothing to the size or to the count in the whole scan: the scan returns
  what it returns on the same files without any of the names of this inode, whether or
  not a later name matches a pattern, and the inode number is not in
  \<open>seen_filtered\<close> when the scan ends.
\<close>

theorem C2_excluded_first_name:
  assumes "visited (map prepare_pattern pats) d root = pre @ (p, File (Inr s)) # post"
      and "\<forall>(q, e) \<in> set pre. \<not> has_ino (st_ino s) e"
      and "is_excluded (map prepare_pattern pats) p"
  shows "get_directory_size root d pats =
           scan_result (scan_files (map prepare_pattern pats)
             (filter (\<lambda>(q, e). \<not> has_ino (st_ino s) e)
                (visited (map prepare_pattern pats) d root)) init_state)
         \<and> (\<forall>st'. walk (map prepare_pattern pats) d root init_state = Inr st'
               \<longrightarrow> st_ino s \<notin> seen_filtered st')"
proof -
  let ?ps = "map prepare_pattern pats"
  let ?keep = "filter (\<lambda>(q, e). \<not> has_ino (st_ino s) e)"
  have f: "?keep (visited ?ps d root) = pre @ ?keep post"
    by (simp add: assms(1) filter_no_ino [OF assms(2)] has_ino_self)
  have 1: "get_directory_size root d pats =
      scan_result (scan_files ?ps (?keep (visited ?ps d root)) init_state)"
    by (simp only: get_directory_size_visited f)
       (simp only: assms(1) scan_files_excluded_name [OF assms(3)])
  have 2: "st_ino s \<notin> seen_filtered st'"
    if w: "walk ?ps d root init_state = Inr st'" for st'
  proof -
    from w have "scan_files ?ps (pre @ (p, File (Inr s)) # post) init_state = Inr st'"
      by (simp add: walk_scan_files assms(1))
    then obtain a where a: "scan_files ?ps pre init_state = Inr a"
      and b: "scan_files ?ps post (mark_seen (st_ino s) a) = Inr st'"
      using assms(3) by (auto simp: scan_files_append count_file_excluded split: sum.splits)
    from b obtain c where c: "scan_files ?ps (?keep post) a = Inr c"
      and st': "st' = mark_seen (st_ino s) c"
      by (cases "scan_files ?ps (?keep post) a") (auto simp: scan_files_mark_seen)
    have "scan_files ?ps (pre @ ?keep post) init_state = Inr c"
      using a c by (simp add: scan_files_append)
    from scan_files_seen_filtered [OF this, of "st_ino s"] assms(2)
    have "st_ino s \<notin> seen_filtered c"
      by (auto simp: init_state_def)
    then show ?thesis by (simp add: st' mark_seen_def)
  qed
  from 1 2 show ?thesis by blast
qed

text \<open>
  The theorem at \<open>root/{a.txt:100, q.txt:5, z.txt}\<close>, where \<open>z.txt\<close> is a hard
  link of \<open>a.txt\<close>, with the pattern \<open>root/a.txt\<close>: the later name \<open>z.txt\<close> matches
  no pattern, and the scan returns 5 and 1.
\<close>

theorem C2_excluded_first_name_witness:
  "visited (map prepare_pattern [''root/a.txt'']) ''root'' tree_excluded_first =
     [] @ (''root/a.txt'', File (Inr \<lparr>st_ino = 1, st_dev = 1, st_size = 100\<rparr>))
        # [(''root/q.txt'', reg 2 5), (''root/z.txt'', reg 1 100)]
   \<and> is_excluded (map prepare_pattern [''root/a.txt'']) ''root/a.txt''
   \<and> \<not> is_excluded (map prepare_pattern [''root/a.txt'']) ''root/z.txt''
   \<and> get_directory_size tree_excluded_first ''root'' [''root/a.txt''] = Inr (5, 1)"
  using C2_excluded_first_name [where pats = "[''root/a.txt'']" and d = "''root''"
          and root = tree_excluded_first and pre = "[]" and p = "''root/a.txt''"
          and s = "\<lparr>st_ino = 1, st_dev = 1, st_size = 100\<rparr>"
          and post = "[(''root/q.txt'', reg 2 5), (''root/z.txt'', reg 1 100)]"]
  by (simp add: tree_excluded_first_def reg_def scan_simps glob_simps path_simps)


section \<open>Every file is counted at most once\<close>

text \<open>
  C3: when a scan returns the size \<open>total_size\<close> and the count \<open>file_count\<close>, there
  is a set \<open>S\<close> of \<open>stat\<close> results of files that the file loop met, no two of them
  with the same inode number, and so no two of them the same physical file (device
  and inode number), such that \<open>total_size\<close> is the sum of their sizes and
  \<open>file_count\<close> their number: a physical file contributes its size and one unit at
  most once, by however many hard-linked names it is reached. In particular the tree
  \<open>root/{a.txt:100, link_to_a.txt}\<close>, where \<open>link_to_a.txt\<close> is a hard link of
  \<open>a.txt\<close>, scanned with no exclude pattern gives 100 and 1.
\<close>

theorem C3_counted_once:
  assumes "get_directory_size root d pats = Inr (total_size, file_count)"
  shows "(\<exists>S. S \<subseteq> files_of (visited (map prepare_pattern pats) d root)
             \<and> inj_on st_ino S \<and> inj_on (\<lambda>s. (st_dev s, st_ino s)) S
             \<and> total_size = sum st_size S \<and> file_count = card S)
         \<and> get_directory_size tree_hardlink ''root'' [] = Inr (100, 1)"
proof -
  let ?ps = "map prepare_pattern pats"
  from assms obtain st' where st': "scan_files ?ps (visited ?ps d root) init_state = Inr st'"
    and t: "total_size = data_size_filtered st'" and c: "file_count = card (seen_filtered st')"
    by (auto simp: get_directory_size_visited scan_result_def split: sum.splits)
  from scan_files_counted_by [OF st' counted_by_init, of "files_of (visited ?ps d root)"]
  obtain S where S: "counted_by S st'" "S \<subseteq> files_of (visited ?ps d root)" by auto
  from S(1) have inj: "inj_on st_ino S" by (simp add: counted_by_def)
  have "inj_on (\<lambda>s. (st_dev s, st_ino s)) S"
    by (rule inj_onI) (use inj in \<open>auto dest: inj_onD\<close>)
  moreover have "file_count = card S"
    using S(1) c card_image [OF inj] by (simp add: counted_by_def)
  moreover have "total_size = sum st_size S" using S(1) t by (simp add: counted_by_def)
  moreover have "get_directory_size tree_hardlink ''root'' [] = Inr (100, 1)"
    by (simp add: tree_hardlink_def reg_def scan_simps path_simps)
  ultimately show ?thesis using S(2) inj by blast
qed

text \<open>The theorem at the tree with the hard link.\<close>

theorem C3_counted_once_witness:
  "get_directory_size tree_hardlink ''root'' [] = Inr (100, 1)
   \<and> (\<exists>S. S \<subseteq> files_of (visited (map prepare_pattern []) ''root'' tree_hardlink)
          \<and> inj_on (\<lambda>s. (st_dev s, st_ino s)) S \<and> 100 = sum st_size S \<and> 1 = card S)"
  using C3_counted_once [where root = tree_hardlink and d = "''root''" and pats = "[]"
          and total_size = 100 and file_count = 1]
  by (simp add: tree_hardlink_def reg_def scan_simps path_simps) blast


section \<open>What a compiled pattern matches\<close>

text \<open>
  C4 (as stated in the specification): for every raw pattern \<open>p\<close>, if \<open>p\<close> ends with
  the separator the matcher matches every proper descendant of the named directory
  and not the directory's own path, and otherwise it matches the named path and every
  path under it. This fails for some patterns. The pattern \<open>/\<close> ends with the
  separator and names the root directory, and the matcher matches the root's own path
  \<open>/\<close>. A pattern is moreover a shell pattern: \<open>[a]/\<close> does not match the path
  \<open>[a]/x\<close> under the directory with the name \<open>[a]\<close>; and \<open>*\<close> matches across
  separators, so that \<open>*/\<close> matches the own path \<open>a/b\<close> of a directory that \<open>*\<close>
  names.
\<close>

theorem C4_counterexample:
  "endswith_sep ''/'' \<and> normpath ''/'' = ''/'' \<and> match (prepare_pattern ''/'') ''/''
   \<and> endswith_sep ''[a]/'' \<and> normpath ''[a]/'' = ''[a]''
   \<and> \<not> match (prepare_pattern ''[a]/'') ''[a]/x''
   \<and> endswith_sep ''*/'' \<and> match (prepare_pattern ''*'') ''a/b''
   \<and> match (prepare_pattern ''*/'') ''a/b''"
  by (simp add: glob_simps path_simps)

text \<open>
  C4 (amended): let the raw pattern \<open>p\<close> contain none of the characters \<open>*\<close>, \<open>?\<close>
  and \<open>[\<close>, and let \<open>normpath p\<close> be the path it names. If \<open>p\<close> has no trailing
  separator, the matcher matches \<open>normpath p\<close> itself and every path \<open>normpath p\<close>
  followed by a separator and any \<open>rest\<close>. If \<open>p\<close> ends with the separator and
  \<open>normpath p\<close> is not made of separators only (the named directory is not the
  root), the matcher matches every path \<open>normpath p\<close> followed by a separator and a
  non-empty \<open>rest\<close>, and does not match \<open>normpath p\<close>.
\<close>

theorem C4_literal_pattern:
  assumes "literal p"
  shows "(\<not> endswith_sep p \<longrightarrow>
            match (prepare_pattern p) (normpath p)
            \<and> (\<forall>rest. match (prepare_pattern p) (normpath p @ [sep] @ rest)))
         \<and> (endswith_sep p \<and> lstrip_sep (normpath p) \<noteq> [] \<longrightarrow>
            (\<forall>rest. rest \<noteq> [] \<longrightarrow> match (prepare_pattern p) (normpath p @ [sep] @ rest))
            \<and> \<not> match (prepare_pattern p) (normpath p))"
proof (intro conjI impI allI)
  assume n: "\<not> endswith_sep p"
  show "match (prepare_pattern p) (normpath p)"
  proof (cases "lstrip_sep (normpath p) = []")
    case True
    then show ?thesis
      by (simp add: prepare_pattern_plain [OF assms n] match_def re_match_Star)
  next
    case False
    then show ?thesis
      by (simp add: prepare_pattern_plain [OF assms n] match_literal_self)
  qed
  show "match (prepare_pattern p) (normpath p @ [sep] @ rest)" for rest
  proof (cases "lstrip_sep (normpath p) = []")
    case True
    then show ?thesis
      by (simp add: prepare_pattern_plain [OF assms n] match_def re_match_Star)
  next
    case False
    then show ?thesis
      by (simp add: prepare_pattern_plain [OF assms n] match_literal_prefix re_match_Star)
  qed
next
  fix rest :: string
  assume e: "endswith_sep p \<and> lstrip_sep (normpath p) \<noteq> []"
  then have pp: "prepare_pattern p = map Lit (lstrip_sep (normpath p)) @ [Lit sep, Star, Lit sep]"
    using prepare_pattern_contents [OF assms] by simp
  from e show "match (prepare_pattern p) (normpath p @ [sep] @ rest)"
    using re_match_Star_sep [of rest] by (simp add: pp match_literal_prefix)
next
  assume e: "endswith_sep p \<and> lstrip_sep (normpath p) \<noteq> []"
  then have pp: "prepare_pattern p = map Lit (lstrip_sep (normpath p)) @ [Lit sep, Star, Lit sep]"
    using prepare_pattern_contents [OF assms] by simp
  show "\<not> match (prepare_pattern p) (normpath p)"
    by (simp add: pp match_literal_self)
qed

text \<open>The theorem at the patterns \<open>a/b/\<close> and \<open>a/b\<close>.\<close>

theorem C4_literal_pattern_witness:
  "literal ''a/b/'' \<and> endswith_sep ''a/b/'' \<and> normpath ''a/b/'' = ''a/b''
   \<and> lstrip_sep (normpath ''a/b/'') \<noteq> []
   \<and> match (prepare_pattern ''a/b/'') (normpath ''a/b/'' @ [sep] @ ''c.txt'')
   \<and> \<not> match (prepare_pattern ''a/b/'') ''a/b''
   \<and> literal ''a/b'' \<and> \<not> endswith_sep ''a/b''
   \<and> match (prepare_pattern ''a/b'') ''a/b''
   \<and> match (prepare_pattern ''a/b'') ''a/b/c.txt''"
  using C4_literal_pattern [of "''a/b/''"] C4_literal_pattern [of "''a/b''"]
  by (simp add: literal_def magic_def glob_simps path_simps)


section \<open>Examples of \<open>pretty_bytes\<close>\<close>

text \<open>
  C8: \<open>pretty_bytes(1500, metric=True)\<close> returns \<open>1.5 KB\<close>,
  \<open>pretty_bytes(1536, metric=False)\<close> returns \<open>1.5 KiB\<close> (with the defaults
  \<open>sign=False\<close> and \<open>precision=1\<close>), and \<open>pretty_bytes\<close> returns the empty string for
  the float \<open>3.14\<close> and for every argument that is not an instance of \<open>int\<close>,
  whatever \<open>metric\<close>, \<open>sign\<close> and \<open>precision\<close> are.
\<close>

theorem C8_examples:
  "pretty_bytes (PyInt 1500) True False 1 = Inr ''1.5 KB''
   \<and> pretty_bytes (PyInt 1536) False False 1 = Inr ''1.5 KiB''
   \<and> pretty_bytes (PyFloat float_3_14) metric sign precision = Inr ''''
   \<and> (int_value v = None \<longrightarrow> pretty_bytes v metric sign precision = Inr '''')"
  by (simp add: pretty_simps number_simps repr_simps)

text \<open>The theorem at the string \<open>'1500'\<close>, which is not an \<open>int\<close>.\<close>

theorem C8_examples_witness:
  "int_value (PyStr ''1500'') = None \<and> pretty_bytes (PyStr ''1500'') True False 1 = Inr ''''"
  using C8_examples [of True False 1 "PyStr ''1500''"] by simp


section \<open>The unit index of \<open>pretty_bytes\<close>\<close>




end
